theory Spec2Isabelle
  imports Complex_Main "HOL-Library.Multiset" "HOL-Library.List_Lexorder" "HOL-Library.Char_ord"
begin

section \<open>LinkedBST: a link-based binary search tree (linkedbst.py)\<close>

subsection \<open>Data model\<close>

text \<open>
  A link of the Python tree is either \<open>None\<close> or a \<open>BSTNode\<close> object with the fields
  \<open>data\<close>, \<open>left\<close> and \<open>right\<close>. The tree is a strict hierarchy (no node has two
  parents), so a link is modelled by the value it points to: \<open>Empty\<close> is \<open>None\<close>.
  In-place updates of a node become the rebuilt node.
\<close>

datatype 'a bst = Empty | BSTNode (left: "'a bst") (data: 'a) (right: "'a bst")

text \<open>
  A \<open>LinkedBST\<close> object: the field \<open>_root\<close>, and the counter \<open>_size\<close> that it inherits
  from \<open>AbstractCollection\<close>.
\<close>

record 'a LinkedBST =
  bst_root :: "'a bst"
  bst_size :: int

text \<open>The exceptions the code can raise. \<open>AttributeError\<close> is Python's answer to
  reading a field of \<open>None\<close>, \<open>TypeError\<close> to \<open>high + 1\<close> or \<open>range\<close> on a value that is
  not an integer, \<open>ValueError\<close> to \<open>log2\<close> of a number that is not positive.\<close>

datatype error = KeyError | AttributeError | TypeError | ValueError

text \<open>Modelled from the spec: \<open>isEmpty\<close> and the size counter belong to
  \<open>AbstractCollection\<close> (abstractcollection.py), which is not among the sources. The spec
  gives the tree a \<open>size\<close>, "an integer count of stored items, maintained incrementally",
  and an \<open>isEmpty() -> bool\<close>; emptiness is read off the counter.\<close>

definition isEmpty :: "'a LinkedBST \<Rightarrow> bool" where
  "isEmpty t = (bst_size t = 0)"

text \<open>\<open>LinkedBST()\<close>: \<open>_root = None\<close>, and the collection starts with size 0.\<close>

definition empty_bst :: "'a LinkedBST" where
  "empty_bst = \<lparr>bst_root = Empty, bst_size = 0\<rparr>"

subsection \<open>Accessors\<close>

fun inorder_recurse :: "'a bst \<Rightarrow> 'a list" where
  "inorder_recurse Empty = []"
| "inorder_recurse (BSTNode l d r) = inorder_recurse l @ [d] @ inorder_recurse r"

definition inorder :: "'a LinkedBST \<Rightarrow> 'a list" where
  "inorder t = inorder_recurse (bst_root t)"

fun find_recurse :: "'a::linorder \<Rightarrow> 'a bst \<Rightarrow> 'a option" where
  "find_recurse item Empty = None"
| "find_recurse item (BSTNode l d r) =
     (if item = d then Some d
      else if item < d then find_recurse item l
      else find_recurse item r)"

definition find_bst :: "'a::linorder LinkedBST \<Rightarrow> 'a \<Rightarrow> 'a option" where
  "find_bst t item = find_recurse item (bst_root t)"

definition contains :: "'a::linorder LinkedBST \<Rightarrow> 'a \<Rightarrow> bool" where
  "contains t item = (find_bst t item \<noteq> None)"

text \<open>The number of nodes reachable from a link; it states the size invariant and measures
  the stack of the pre-order traversal.\<close>

fun count_nodes :: "'a bst \<Rightarrow> nat" where
  "count_nodes Empty = 0"
| "count_nodes (BSTNode l d r) = count_nodes l + 1 + count_nodes r"

fun height1 :: "'a bst \<Rightarrow> int" where
  "height1 Empty = - 1"
| "height1 (BSTNode l d r) = 1 + max (height1 l) (height1 r)"

definition height :: "'a LinkedBST \<Rightarrow> int" where
  "height t = height1 (bst_root t)"

text \<open>\<open>__iter__\<close>, the pre-order traversal with an explicit stack (head of the list = top
  of the stack): pop a node, yield its datum, push its right child and then its left child
  when they are present. The generator is modelled by the list of the items it yields. The
  stack class (linkedstack.py) is not among the sources; it is used as a last-in-first-out
  stack, as the spec describes it.\<close>

function iter_loop :: "'a bst list \<Rightarrow> error + 'a list" where
  "iter_loop [] = Inr []"
| "iter_loop (Empty # stack) = Inl AttributeError"
| "iter_loop (BSTNode l d r # stack) =
     (case iter_loop ((if l \<noteq> Empty then [l] else []) @ (if r \<noteq> Empty then [r] else []) @ stack) of
        Inl e \<Rightarrow> Inl e
      | Inr items \<Rightarrow> Inr (d # items))"
  by pat_completeness auto
termination
  by (relation "measure (\<lambda>stack. sum_list (map count_nodes stack))") auto

definition iter_bst :: "'a LinkedBST \<Rightarrow> error + 'a list" where
  "iter_bst t = (if \<not> isEmpty t then iter_loop [bst_root t] else Inr [])"

subsection \<open>Mutators\<close>

definition clear :: "'a LinkedBST \<Rightarrow> 'a LinkedBST" where
  "clear t = t\<lparr>bst_root := Empty, bst_size := 0\<rparr>"

text \<open>The helper \<open>recurse\<close> of \<open>add\<close> reads \<open>node.data\<close> first, so it needs a node.\<close>

fun add_recurse :: "'a::linorder \<Rightarrow> 'a bst \<Rightarrow> error + 'a bst" where
  "add_recurse item Empty = Inl AttributeError"
| "add_recurse item (BSTNode l d r) =
     (if item < d then
        (if l = Empty then Inr (BSTNode (BSTNode Empty item Empty) d r)
         else (case add_recurse item l of
                 Inl e \<Rightarrow> Inl e
               | Inr l' \<Rightarrow> Inr (BSTNode l' d r)))
      else if r = Empty then Inr (BSTNode l d (BSTNode Empty item Empty))
      else (case add_recurse item r of
              Inl e \<Rightarrow> Inl e
            | Inr r' \<Rightarrow> Inr (BSTNode l d r')))"

definition add :: "'a::linorder LinkedBST \<Rightarrow> 'a \<Rightarrow> error + 'a LinkedBST" where
  "add t item =
     (if isEmpty t then
        Inr (t\<lparr>bst_root := BSTNode Empty item Empty, bst_size := bst_size t + 1\<rparr>)
      else (case add_recurse item (bst_root t) of
              Inl e \<Rightarrow> Inl e
            | Inr n \<Rightarrow> Inr (t\<lparr>bst_root := n, bst_size := bst_size t + 1\<rparr>)))"

text \<open>Modelled from the spec: the constructor's bulk load is done by
  \<open>AbstractCollection.__init__\<close>, which is not among the sources: "Construction from an
  optional initial sequence of items (bulk-loaded via repeated \<open>insert\<close>, not via the
  rebalance path)".\<close>

fun add_all :: "'a::linorder LinkedBST \<Rightarrow> 'a list \<Rightarrow> error + 'a LinkedBST" where
  "add_all t [] = Inr t"
| "add_all t (item # items) =
     (case add t item of Inl e \<Rightarrow> Inl e | Inr t' \<Rightarrow> add_all t' items)"

definition LinkedBST_init :: "'a::linorder list \<Rightarrow> error + 'a LinkedBST" where
  "LinkedBST_init sourceCollection = add_all empty_bst sourceCollection"

text \<open>\<open>lift_max_in_left_subtree_to_top\<close>: its loop walks from \<open>top.left\<close> to the rightmost
  node \<open>current_node\<close>; that node's datum goes to \<open>top\<close>, and the link that held the node
  (\<open>top.left\<close> or \<open>parent.right\<close>) is set to \<open>current_node.left\<close>. The loop returns the
  datum and the subtree with the node unlinked.\<close>

fun lift_max_loop :: "'a bst \<Rightarrow> error + ('a \<times> 'a bst)" where
  "lift_max_loop Empty = Inl AttributeError"
| "lift_max_loop (BSTNode l d r) =
     (if r \<noteq> Empty then
        (case lift_max_loop r of
           Inl e \<Rightarrow> Inl e
         | Inr (m, r') \<Rightarrow> Inr (m, BSTNode l d r'))
      else Inr (d, l))"

fun lift_max_in_left_subtree_to_top :: "'a bst \<Rightarrow> error + 'a bst" where
  "lift_max_in_left_subtree_to_top Empty = Inl AttributeError"
| "lift_max_in_left_subtree_to_top (BSTNode l d r) =
     (case lift_max_loop l of
        Inl e \<Rightarrow> Inl e
      | Inr (m, l') \<Rightarrow> Inr (BSTNode l' m r))"

text \<open>The main part of \<open>remove\<close>: the search loop with \<open>parent\<close> and \<open>direction\<close>, then the
  unlinking. The result is \<open>item_removed\<close> and what the link that led to the subtree
  (from \<open>pre_root.left\<close> down) holds afterwards.\<close>

fun remove_loop :: "'a::linorder \<Rightarrow> 'a bst \<Rightarrow> error + ('a option \<times> 'a bst)" where
  "remove_loop item Empty = Inr (None, Empty)"
| "remove_loop item (BSTNode l d r) =
     (if d = item then
        (if l \<noteq> Empty \<and> r \<noteq> Empty then
           (case lift_max_in_left_subtree_to_top (BSTNode l d r) of
              Inl e \<Rightarrow> Inl e
            | Inr top_node \<Rightarrow> Inr (Some d, top_node))
         else if l = Empty then Inr (Some d, r)
         else Inr (Some d, l))
      else if d > item then
        (case remove_loop item l of
           Inl e \<Rightarrow> Inl e
         | Inr (item_removed, l') \<Rightarrow> Inr (item_removed, BSTNode l' d r))
      else
        (case remove_loop item r of
           Inl e \<Rightarrow> Inl e
         | Inr (item_removed, r') \<Rightarrow> Inr (item_removed, BSTNode l d r')))"

text \<open>\<open>remove\<close> returns the tree as the call leaves it together with the outcome: an
  exception, or the returned value (\<open>None\<close> or the removed item).\<close>

definition remove ::
  "'a::linorder LinkedBST \<Rightarrow> 'a \<Rightarrow> 'a LinkedBST \<times> (error + 'a option)" where
  "remove t item =
     (if \<not> contains t item then (t, Inl KeyError)
      else if isEmpty t then (t, Inr None)
      else (case remove_loop item (bst_root t) of
              Inl e \<Rightarrow> (t, Inl e)
            | Inr (None, pre_root_left) \<Rightarrow> (t, Inr None)
            | Inr (Some item_removed, pre_root_left) \<Rightarrow>
                (if bst_size t - 1 = 0
                 then t\<lparr>bst_root := Empty, bst_size := bst_size t - 1\<rparr>
                 else t\<lparr>bst_root := pre_root_left, bst_size := bst_size t - 1\<rparr>,
                 Inr (Some item_removed))))"

fun replace_loop :: "'a::linorder \<Rightarrow> 'a \<Rightarrow> 'a bst \<Rightarrow> 'a option \<times> 'a bst" where
  "replace_loop item new_item Empty = (None, Empty)"
| "replace_loop item new_item (BSTNode l d r) =
     (if d = item then (Some d, BSTNode l new_item r)
      else if d > item then
        (case replace_loop item new_item l of (old, l') \<Rightarrow> (old, BSTNode l' d r))
      else
        (case replace_loop item new_item r of (old, r') \<Rightarrow> (old, BSTNode l d r')))"

definition replace :: "'a::linorder LinkedBST \<Rightarrow> 'a \<Rightarrow> 'a \<Rightarrow> 'a LinkedBST \<times> 'a option" where
  "replace t item new_item =
     (case replace_loop item new_item (bst_root t) of
        (old, n) \<Rightarrow> (t\<lparr>bst_root := n\<rparr>, old))"

subsection \<open>Balance, range queries and rebalancing\<close>

text \<open>\<open>is_balanced\<close> compares the height with \<open>ceil(log2(size + 1) - 1)\<close>. The logarithm
  is taken over the reals here (Python computes it in double precision, which agrees for
  every size a tree in memory can have); \<open>log2\<close> of a number that is not positive raises
  \<open>ValueError\<close>.\<close>

definition is_balanced :: "'a LinkedBST \<Rightarrow> error + bool" where
  "is_balanced t =
     (if bst_size t + 1 \<le> 0 then Inl ValueError
      else Inr (height t \<le> \<lceil>log 2 (real_of_int (bst_size t + 1)) - 1\<rceil>))"

text \<open>\<open>range_find\<close> tests \<open>item in range(low, high+1)\<close>, which depends on the dynamic type
  of the values: Python integers and strings are told apart.\<close>

datatype pyval = PyInt int | PyStr string

text \<open>\<open>high + 1\<close>.\<close>

fun py_add_1 :: "pyval \<Rightarrow> error + pyval" where
  "py_add_1 (PyInt i) = Inr (PyInt (i + 1))"
| "py_add_1 (PyStr s) = Inl TypeError"

text \<open>\<open>range(a, b)\<close>: both arguments must be integers.\<close>

fun py_range :: "pyval \<Rightarrow> pyval \<Rightarrow> error + (int \<times> int)" where
  "py_range (PyInt a) (PyInt b) = Inr (a, b)"
| "py_range _ _ = Inl TypeError"

text \<open>\<open>item in range(a, b)\<close>: an integer is in the range when \<open>a <= item < b\<close>; a string
  equals none of its elements.\<close>

fun py_in_range :: "pyval \<Rightarrow> int \<times> int \<Rightarrow> bool" where
  "py_in_range (PyInt i) (a, b) = (a \<le> i \<and> i < b)"
| "py_in_range (PyStr s) (a, b) = False"

fun range_find_loop ::
  "pyval list \<Rightarrow> pyval \<Rightarrow> pyval \<Rightarrow> pyval list \<Rightarrow> error + pyval list" where
  "range_find_loop [] low high list_in_range = Inr list_in_range"
| "range_find_loop (item # items) low high list_in_range =
     (case py_add_1 high of
        Inl e \<Rightarrow> Inl e
      | Inr high1 \<Rightarrow>
          (case py_range low high1 of
             Inl e \<Rightarrow> Inl e
           | Inr rng \<Rightarrow>
               range_find_loop items low high
                 (if py_in_range item rng then list_in_range @ [item] else list_in_range)))"

definition range_find :: "pyval LinkedBST \<Rightarrow> pyval \<Rightarrow> pyval \<Rightarrow> error + pyval list" where
  "range_find t low high = range_find_loop (inorder t) low high []"

text \<open>A tree whose items all have one Python type, seen as a tree of Python values.\<close>

definition as_pyvals :: "('a \<Rightarrow> pyval) \<Rightarrow> 'a LinkedBST \<Rightarrow> pyval LinkedBST" where
  "as_pyvals f t = \<lparr>bst_root = map_bst f (bst_root t), bst_size = bst_size t\<rparr>"

text \<open>The helper \<open>recurse\<close> of \<open>rebalance\<close>; the slices \<open>lst[:mid_idx]\<close> and
  \<open>lst[mid_idx+1:]\<close> are \<open>take\<close> and \<open>drop\<close>.\<close>

function rebalance_recurse :: "'a::linorder LinkedBST \<Rightarrow> 'a list \<Rightarrow> error + 'a LinkedBST" where
  "rebalance_recurse t lst =
     (if lst \<noteq> [] then
        (case add t (lst ! (length lst div 2)) of
           Inl e \<Rightarrow> Inl e
         | Inr t1 \<Rightarrow>
             (case rebalance_recurse t1 (take (length lst div 2) lst) of
                Inl e \<Rightarrow> Inl e
              | Inr t2 \<Rightarrow> rebalance_recurse t2 (drop (length lst div 2 + 1) lst)))
      else Inr t)"
  by pat_completeness auto
termination
  by (relation "measure (\<lambda>(t, lst). length lst)") auto

definition rebalance :: "'a::linorder LinkedBST \<Rightarrow> error + 'a LinkedBST" where
  "rebalance t = rebalance_recurse (clear t) (inorder t)"

subsection \<open>Sequences of operations\<close>

datatype 'a op = Add 'a | Remove 'a

text \<open>A sequence of \<open>add\<close> and \<open>remove\<close> calls; it stops at the first exception.\<close>

fun apply_ops :: "'a::linorder LinkedBST \<Rightarrow> 'a op list \<Rightarrow> error + 'a LinkedBST" where
  "apply_ops t [] = Inr t"
| "apply_ops t (Add item # ops) =
     (case add t item of Inl e \<Rightarrow> Inl e | Inr t' \<Rightarrow> apply_ops t' ops)"
| "apply_ops t (Remove item # ops) =
     (case remove t item of
        (t', Inl e) \<Rightarrow> Inl e
      | (t', Inr v) \<Rightarrow> apply_ops t' ops)"

text \<open>The states a \<open>LinkedBST\<close> object can be in: it starts empty, and every mutator that
  returns leads from a reachable state to a reachable state.\<close>

inductive reachable :: "'a::linorder LinkedBST \<Rightarrow> bool" where
  reach_init: "reachable empty_bst"
| reach_add: "reachable t \<Longrightarrow> add t item = Inr t' \<Longrightarrow> reachable t'"
| reach_remove: "reachable t \<Longrightarrow> remove t item = (t', res) \<Longrightarrow> reachable t'"
| reach_replace: "reachable t \<Longrightarrow> replace t item new_item = (t', old) \<Longrightarrow> reachable t'"
| reach_clear: "reachable t \<Longrightarrow> reachable (clear t)"
| reach_rebalance: "reachable t \<Longrightarrow> rebalance t = Inr t' \<Longrightarrow> reachable t'"

subsection \<open>Successor and predecessor\<close>

text \<open>The first loop of \<open>successor\<close>: walk right while \<open>item >= root.data\<close>. It ends with
  \<open>None\<close> (the method returns \<open>None\<close>) or with the node it stopped at.\<close>

fun successor_loop1 :: "'a::linorder \<Rightarrow> 'a bst \<Rightarrow> error + 'a bst option" where
  "successor_loop1 item Empty = Inl AttributeError"
| "successor_loop1 item (BSTNode l d r) =
     (if item \<ge> d then
        (if r \<noteq> Empty then successor_loop1 item r else Inr None)
      else Inr (Some (BSTNode l d r)))"

text \<open>The second loop, with the variables \<open>old_root\<close> and \<open>root\<close>.\<close>

fun successor_loop2 :: "'a::linorder \<Rightarrow> 'a \<Rightarrow> 'a bst \<Rightarrow> error + 'a" where
  "successor_loop2 item old_root Empty = Inl AttributeError"
| "successor_loop2 item old_root (BSTNode l d r) =
     (if item > d then Inr old_root
      else if l \<noteq> Empty then successor_loop2 item d l
      else Inr d)"

definition successor :: "'a::linorder LinkedBST \<Rightarrow> 'a \<Rightarrow> error + 'a option" where
  "successor t item =
     (case successor_loop1 item (bst_root t) of
        Inl e \<Rightarrow> Inl e
      | Inr None \<Rightarrow> Inr None
      | Inr (Some n) \<Rightarrow>
          (case successor_loop2 item (data n) n of
             Inl e \<Rightarrow> Inl e
           | Inr v \<Rightarrow> Inr (Some v)))"

text \<open>The loop of \<open>predecessor\<close>, with the list \<open>predecessors\<close> it appends to.\<close>

fun predecessor_loop :: "'a::linorder \<Rightarrow> 'a bst \<Rightarrow> 'a list \<Rightarrow> error + 'a list" where
  "predecessor_loop item Empty predecessors = Inl AttributeError"
| "predecessor_loop item (BSTNode l d r) predecessors =
     (if item < d then
        (if l \<noteq> Empty then predecessor_loop item l predecessors else Inr predecessors)
      else if item > d then
        (if r \<noteq> Empty then predecessor_loop item r (predecessors @ [d])
         else Inr (predecessors @ [d]))
      else if item = d then
        (if l \<noteq> Empty then predecessor_loop item l predecessors else Inr predecessors)
      else Inr predecessors)"

definition predecessor :: "'a::linorder LinkedBST \<Rightarrow> 'a \<Rightarrow> error + 'a option" where
  "predecessor t item =
     (case predecessor_loop item (bst_root t) [] of
        Inl e \<Rightarrow> Inl e
      | Inr predecessors \<Rightarrow>
          (case predecessors of
             [] \<Rightarrow> Inr None
           | p # ps \<Rightarrow> Inr (Some (fold max ps p))))"

subsection \<open>The scenario tree of the spec\<close>

definition leaf :: "'a \<Rightarrow> 'a bst" where
  "leaf x = BSTNode Empty x Empty"

definition scenario_tree :: "int LinkedBST" where
  "scenario_tree =
     \<lparr>bst_root = BSTNode (BSTNode (leaf 1) 3 (leaf 4)) 5 (BSTNode (leaf 7) 8 (leaf 9)),
      bst_size = 7\<rparr>"

text \<open>The tree \<open>LinkedBST([1, 2, 3])\<close>: a sorted list inserted in order gives a chain
  of right children.\<close>

definition chain3 :: "int LinkedBST" where
  "chain3 = \<lparr>bst_root = BSTNode Empty 1 (BSTNode Empty 2 (BSTNode Empty 3 Empty)), bst_size = 3\<rparr>"

text \<open>The tree \<open>LinkedBST([1, 1, 1])\<close>: equal items go right.\<close>

definition dup3 :: "int LinkedBST" where
  "dup3 = \<lparr>bst_root = BSTNode Empty 1 (BSTNode Empty 1 (BSTNode Empty 1 Empty)), bst_size = 3\<rparr>"

text \<open>\<open>LinkedBST([1, ..., 10])\<close>, \<open>LinkedBST([1, 3, 5, 7, 9])\<close>, \<open>LinkedBST(["b"])\<close>,
  \<open>LinkedBST([10, 5])\<close> and \<open>LinkedBST([10, 2, 5])\<close>. Strings are ordered as Python orders
  them, lexicographically by character code.\<close>

definition range10 :: "int LinkedBST" where
  "range10 =
     \<lparr>bst_root = BSTNode Empty 1 (BSTNode Empty 2 (BSTNode Empty 3 (BSTNode Empty 4
        (BSTNode Empty 5 (BSTNode Empty 6 (BSTNode Empty 7 (BSTNode Empty 8
        (BSTNode Empty 9 (BSTNode Empty 10 Empty))))))))),
      bst_size = 10\<rparr>"

definition odd5 :: "int LinkedBST" where
  "odd5 =
     \<lparr>bst_root = BSTNode Empty 1 (BSTNode Empty 3 (BSTNode Empty 5 (BSTNode Empty 7
        (BSTNode Empty 9 Empty)))),
      bst_size = 5\<rparr>"

definition str_tree :: "string LinkedBST" where
  "str_tree = \<lparr>bst_root = BSTNode Empty ''b'' Empty, bst_size = 1\<rparr>"

definition ten_five :: "int LinkedBST" where
  "ten_five = \<lparr>bst_root = BSTNode (BSTNode Empty 5 Empty) 10 Empty, bst_size = 2\<rparr>"

definition ten_two_five :: "int LinkedBST" where
  "ten_two_five =
     \<lparr>bst_root = BSTNode (BSTNode Empty 2 (BSTNode Empty 5 Empty)) 10 Empty, bst_size = 3\<rparr>"

text \<open>\<open>LinkedBST([5, 3, 8])\<close>, the same tree after \<open>replace(3, 9)\<close>, which overwrites the
  datum of the left child in place, and the latter after \<open>rebalance()\<close>.\<close>

definition five_three_eight :: "int LinkedBST" where
  "five_three_eight = \<lparr>bst_root = BSTNode (leaf 3) 5 (leaf 8), bst_size = 3\<rparr>"

definition replaced_tree :: "int LinkedBST" where
  "replaced_tree = \<lparr>bst_root = BSTNode (leaf 9) 5 (leaf 8), bst_size = 3\<rparr>"

definition replaced_rebalanced :: "int LinkedBST" where
  "replaced_rebalanced = \<lparr>bst_root = BSTNode Empty 5 (BSTNode (leaf 8) 9 Empty), bst_size = 3\<rparr>"

subsection \<open>Invariant and auxiliary functions of the proofs\<close>

text \<open>The size invariant of the data model: the counter equals the number of nodes
  reachable from the root.\<close>

definition size_ok :: "'a LinkedBST \<Rightarrow> bool" where
  "size_ok t = (bst_size t = int (count_nodes (bst_root t)))"

text \<open>What \<open>add\<close> does to the links of a tree, without the bookkeeping: the proofs
  reduce \<open>add\<close> to it.\<close>

fun ins :: "'a::linorder \<Rightarrow> 'a bst \<Rightarrow> 'a bst" where
  "ins x Empty = BSTNode Empty x Empty"
| "ins x (BSTNode l d r) = (if x < d then BSTNode (ins x l) d r else BSTNode l d (ins x r))"

text \<open>The order in which \<open>rebalance\<close> re-inserts a list: the middle element, then the
  left half, then the right half.\<close>

function mid_order :: "'a list \<Rightarrow> 'a list" where
  "mid_order lst =
     (if lst \<noteq> [] then
        lst ! (length lst div 2) # mid_order (take (length lst div 2) lst)
          @ mid_order (drop (length lst div 2 + 1) lst)
      else [])"
  by pat_completeness auto
termination
  by (relation "measure length") auto

declare mid_order.simps [simp del]
declare rebalance_recurse.simps [simp del]

text \<open>The tree of minimal height over a list: the middle element at the root, the halves
  below. For a sorted list without duplicates \<open>rebalance\<close> builds this tree.\<close>

function build :: "'a list \<Rightarrow> 'a bst" where
  "build lst =
     (if lst \<noteq> [] then
        BSTNode (build (take (length lst div 2) lst)) (lst ! (length lst div 2))
          (build (drop (length lst div 2 + 1) lst))
      else Empty)"
  by pat_completeness auto
termination
  by (relation "measure length") auto

declare build.simps [simp del]

section \<open>Theorems\<close>

subsection \<open>Insertion\<close>

lemma ins_not_Empty: "ins x n \<noteq> Empty"
  by (cases n) auto

lemma add_recurse_ins: "n \<noteq> Empty \<Longrightarrow> add_recurse x n = Inr (ins x n)"
  by (induction n) (auto simp: ins_not_Empty)

lemma count_nodes_0: "(count_nodes n = 0) = (n = Empty)"
  by (cases n) auto

lemma length_inorder_recurse: "length (inorder_recurse n) = count_nodes n"
  by (induction n) auto

lemma add_ins:
  "size_ok t \<Longrightarrow> add t x = Inr (t\<lparr>bst_root := ins x (bst_root t), bst_size := bst_size t + 1\<rparr>)"
  by (cases "bst_root t") (auto simp: add_def isEmpty_def size_ok_def add_recurse_ins)

lemma count_nodes_ins: "count_nodes (ins x n) = count_nodes n + 1"
  by (induction n) auto

lemma mset_ins: "mset (inorder_recurse (ins x n)) = add_mset x (mset (inorder_recurse n))"
  by (induction n) auto

lemma set_ins: "set (inorder_recurse (ins x n)) = insert x (set (inorder_recurse n))"
  using mset_ins [of x n] by (metis set_mset_add_mset_insert set_mset_mset)

lemma sorted_ins: "sorted (inorder_recurse n) \<Longrightarrow> sorted (inorder_recurse (ins x n))"
  by (induction n) (auto simp: sorted_append set_ins)

subsection \<open>Removal\<close>

lemma lift_max_loop_total: "n \<noteq> Empty \<Longrightarrow> \<exists>m n'. lift_max_loop n = Inr (m, n')"
  by (induction n) auto

lemma lift_max_loop_inorder:
  "lift_max_loop n = Inr (m, n') \<Longrightarrow> inorder_recurse n = inorder_recurse n' @ [m]"
  by (induction n arbitrary: m n') (auto split: if_splits sum.splits)

lemma lift_max_total:
  "l \<noteq> Empty \<Longrightarrow> \<exists>n'. lift_max_in_left_subtree_to_top (BSTNode l d r) = Inr n'"
  using lift_max_loop_total [of l] by auto

lemma lift_max_inorder:
  "lift_max_in_left_subtree_to_top (BSTNode l d r) = Inr n' \<Longrightarrow>
     inorder_recurse n' = inorder_recurse l @ inorder_recurse r"
  by (auto split: sum.splits dest: lift_max_loop_inorder)

lemma remove_loop_total: "\<exists>res n'. remove_loop item n = Inr (res, n')"
proof (induction n)
  case Empty
  show ?case by simp
next
  case (BSTNode l d r)
  then show ?case
    using lift_max_total [of l d r] by auto
qed

lemma remove_loop_res: "remove_loop item n = Inr (res, n') \<Longrightarrow> res = find_recurse item n"
  by (induction n arbitrary: res n') (auto split: if_splits sum.splits)

lemma find_recurse_Some: "find_recurse item n = Some v \<Longrightarrow> v = item"
  by (induction n) (auto split: if_splits)

lemma remove_loop_None: "remove_loop item n = Inr (None, n') \<Longrightarrow> n' = n"
  by (induction n arbitrary: n') (auto split: if_splits sum.splits)

lemma remove_loop_mset:
  "remove_loop item n = Inr (Some v, n') \<Longrightarrow>
     mset (inorder_recurse n) = add_mset item (mset (inorder_recurse n'))"
  by (induction n arbitrary: n')
     (auto split: if_splits sum.splits dest: lift_max_inorder
           simp del: lift_max_in_left_subtree_to_top.simps)

lemma remove_loop_subset:
  assumes "remove_loop item n = Inr (res, n')"
  shows "set (inorder_recurse n') \<subseteq> set (inorder_recurse n)"
proof (cases res)
  case None
  with assms show ?thesis by (auto dest: remove_loop_None)
next
  case (Some v)
  with assms have "mset (inorder_recurse n) = add_mset item (mset (inorder_recurse n'))"
    by (auto dest: remove_loop_mset)
  then show ?thesis by (metis set_mset_add_mset_insert set_mset_mset subset_insertI)
qed

lemma sorted_inorder_node:
  "sorted (inorder_recurse (BSTNode l d r)) =
     (sorted (inorder_recurse l) \<and> sorted (inorder_recurse r)
      \<and> (\<forall>x\<in>set (inorder_recurse l). x \<le> d) \<and> (\<forall>x\<in>set (inorder_recurse r). d \<le> x))"
  by (auto simp: sorted_append intro: order_trans)

lemma sorted_inorder_join:
  "sorted (inorder_recurse (BSTNode l d r)) \<Longrightarrow> sorted (inorder_recurse l @ inorder_recurse r)"
  by (auto simp: sorted_append intro: order_trans)

lemma remove_loop_sorted:
  "remove_loop item n = Inr (res, n') \<Longrightarrow> sorted (inorder_recurse n) \<Longrightarrow>
     sorted (inorder_recurse n')"
proof (induction n arbitrary: res n')
  case Empty
  then show ?case by simp
next
  case (BSTNode l d r)
  from BSTNode.prems(2) have sl: "sorted (inorder_recurse l)" and sr: "sorted (inorder_recurse r)"
    and ld: "\<forall>x\<in>set (inorder_recurse l). x \<le> d" and dr: "\<forall>x\<in>set (inorder_recurse r). d \<le> x"
    unfolding sorted_inorder_node by blast+
  have lr: "sorted (inorder_recurse l @ inorder_recurse r)"
    using BSTNode.prems(2) by (rule sorted_inorder_join)
  consider (hit2) "d = item" "l \<noteq> Empty \<and> r \<noteq> Empty"
    | (hit1) "d = item" "\<not> (l \<noteq> Empty \<and> r \<noteq> Empty)"
    | (goleft) "d \<noteq> item" "d > item"
    | (goright) "d \<noteq> item" "\<not> d > item" by blast
  then show ?case
  proof cases
    case hit2
    with BSTNode.prems(1) obtain top_node where
      "lift_max_in_left_subtree_to_top (BSTNode l d r) = Inr top_node" "n' = top_node"
      by (auto split: sum.splits simp del: lift_max_in_left_subtree_to_top.simps)
    with lr show ?thesis by (simp add: lift_max_inorder del: lift_max_in_left_subtree_to_top.simps)
  next
    case hit1
    with BSTNode.prems(1) sl sr show ?thesis by (auto split: if_splits)
  next
    case goleft
    with BSTNode.prems(1) obtain l' where l': "remove_loop item l = Inr (res, l')" "n' = BSTNode l' d r"
      by (auto split: sum.splits)
    from l'(1) sl have "sorted (inorder_recurse l')" by (rule BSTNode.IH(1))
    moreover from l'(1) have "set (inorder_recurse l') \<subseteq> set (inorder_recurse l)"
      by (rule remove_loop_subset)
    ultimately show ?thesis unfolding l'(2) sorted_inorder_node using sr ld dr by blast
  next
    case goright
    with BSTNode.prems(1) obtain r' where r': "remove_loop item r = Inr (res, r')" "n' = BSTNode l d r'"
      by (auto split: sum.splits)
    from r'(1) sr have "sorted (inorder_recurse r')" by (rule BSTNode.IH(2))
    moreover from r'(1) have "set (inorder_recurse r') \<subseteq> set (inorder_recurse r)"
      by (rule remove_loop_subset)
    ultimately show ?thesis unfolding r'(2) sorted_inorder_node using sl ld dr by blast
  qed
qed

subsection \<open>Rebalancing as a sequence of insertions\<close>

lemma size_ok_add:
  "size_ok t \<Longrightarrow> size_ok (t\<lparr>bst_root := ins x (bst_root t), bst_size := bst_size t + 1\<rparr>)"
  by (simp add: size_ok_def count_nodes_ins)

lemma count_nodes_fold_ins: "count_nodes (fold ins xs n) = count_nodes n + length xs"
  by (induction xs arbitrary: n) (auto simp: count_nodes_ins)

lemma mset_mid_order: "mset (mid_order lst) = mset lst"
proof (induction lst rule: mid_order.induct)
  case (1 lst)
  show ?case
  proof (cases "lst = []")
    case True
    then show ?thesis by (simp add: mid_order.simps)
  next
    case False
    then have lt: "length lst div 2 < length lst" by simp
    have "mset lst = mset (take (length lst div 2) lst @ lst ! (length lst div 2)
              # drop (Suc (length lst div 2)) lst)"
      using id_take_nth_drop [OF lt] by simp
    with False 1 show ?thesis
      by (subst mid_order.simps) simp
  qed
qed

lemma length_mid_order: "length (mid_order lst) = length lst"
  using mset_mid_order [of lst] by (metis size_mset)

lemma mid_lt: "lst \<noteq> [] \<Longrightarrow> length lst div 2 < length lst"
  by (cases lst) auto

lemma rebalance_recurse_fold:
  "size_ok t \<Longrightarrow>
   rebalance_recurse t lst =
     Inr (t\<lparr>bst_root := fold ins (mid_order lst) (bst_root t),
            bst_size := bst_size t + int (length lst)\<rparr>)"
proof (induction lst arbitrary: t rule: mid_order.induct)
  case (1 lst)
  show ?case
  proof (cases "lst = []")
    case True
    then show ?thesis by (simp add: mid_order.simps rebalance_recurse.simps)
  next
    case False
    let ?m = "length lst div 2"
    let ?t1 = "t\<lparr>bst_root := ins (lst ! ?m) (bst_root t), bst_size := bst_size t + 1\<rparr>"
    let ?t2 = "?t1\<lparr>bst_root := fold ins (mid_order (take ?m lst)) (bst_root ?t1),
            bst_size := bst_size ?t1 + int (length (take ?m lst))\<rparr>"
    have a: "add t (lst ! ?m) = Inr ?t1" using "1.prems" by (rule add_ins)
    have ok1: "size_ok ?t1" using "1.prems" by (rule size_ok_add)
    have r1: "rebalance_recurse ?t1 (take ?m lst) = Inr ?t2"
      using "1.IH"(1) [OF False ok1] .
    have ok2: "size_ok ?t2" using ok1 by (simp add: size_ok_def count_nodes_fold_ins length_mid_order)
    have r2: "rebalance_recurse ?t2 (drop (?m + 1) lst) =
       Inr (?t2\<lparr>bst_root := fold ins (mid_order (drop (?m + 1) lst)) (bst_root ?t2),
            bst_size := bst_size ?t2 + int (length (drop (?m + 1) lst))\<rparr>)"
      using "1.IH"(2) [OF False ok2] .
    have len: "1 + int (length (take ?m lst)) + int (length (drop (?m + 1) lst)) = int (length lst)"
      using mid_lt [OF False] by (simp add: min_def)
    have "rebalance_recurse t lst =
        (case rebalance_recurse ?t1 (take ?m lst) of
           Inl e \<Rightarrow> Inl e
         | Inr t2 \<Rightarrow> rebalance_recurse t2 (drop (?m + 1) lst))"
      by (subst rebalance_recurse.simps) (simp add: False a)
    also have "\<dots> = rebalance_recurse ?t2 (drop (?m + 1) lst)"
      by (simp only: r1 sum.case)
    also note r2
    also have "Inr (?t2\<lparr>bst_root := fold ins (mid_order (drop (?m + 1) lst)) (bst_root ?t2),
            bst_size := bst_size ?t2 + int (length (drop (?m + 1) lst))\<rparr>) =
        Inr (t\<lparr>bst_root := fold ins (mid_order lst) (bst_root t),
            bst_size := bst_size t + int (length lst)\<rparr>)"
      using len by (subst (3) mid_order.simps) (simp add: False)
    finally show ?thesis .
  qed
qed

subsection \<open>Invariants of the operations\<close>

lemma remove_loop_count:
  assumes "remove_loop item n = Inr (Some v, n')"
  shows "count_nodes n = count_nodes n' + 1"
proof -
  from assms have "mset (inorder_recurse n) = add_mset item (mset (inorder_recurse n'))"
    by (rule remove_loop_mset)
  then have "size (mset (inorder_recurse n)) = size (add_mset item (mset (inorder_recurse n')))"
    by simp
  then show ?thesis by (simp add: length_inorder_recurse)
qed

lemma remove_not_contains: "\<not> contains t item \<Longrightarrow> remove t item = (t, Inl KeyError)"
  by (simp add: remove_def)

lemma remove_contains:
  assumes ok: "size_ok t" and c: "contains t item"
  shows "\<exists>n'. remove_loop item (bst_root t) = Inr (Some item, n')
           \<and> remove t item = (t\<lparr>bst_root := n', bst_size := bst_size t - 1\<rparr>, Inr (Some item))"
proof -
  from c have f: "find_recurse item (bst_root t) = Some item"
    by (auto simp: contains_def find_bst_def dest: find_recurse_Some)
  obtain res n' where rl: "remove_loop item (bst_root t) = Inr (res, n')"
    using remove_loop_total by blast
  with f have res: "res = Some item" by (auto dest: remove_loop_res)
  from rl res have cnt: "count_nodes (bst_root t) = count_nodes n' + 1"
    by (auto dest: remove_loop_count)
  with ok have ne: "\<not> isEmpty t" by (simp add: isEmpty_def size_ok_def)
  have "bst_size t - 1 = 0 \<Longrightarrow> n' = Empty"
    using ok cnt by (simp add: size_ok_def count_nodes_0)
  then have "remove t item = (t\<lparr>bst_root := n', bst_size := bst_size t - 1\<rparr>, Inr (Some item))"
    using c ne rl res by (auto simp: remove_def)
  with rl res show ?thesis by blast
qed

lemma size_ok_remove: "size_ok t \<Longrightarrow> remove t item = (t', res) \<Longrightarrow> size_ok t'"
proof (cases "contains t item")
  case False
  assume "size_ok t" "remove t item = (t', res)"
  with False show ?thesis by (simp add: remove_not_contains)
next
  case True
  assume ok: "size_ok t" and r: "remove t item = (t', res)"
  from remove_contains [OF ok True] obtain n' where
    rl: "remove_loop item (bst_root t) = Inr (Some item, n')"
    and rm: "remove t item = (t\<lparr>bst_root := n', bst_size := bst_size t - 1\<rparr>, Inr (Some item))"
    by blast
  from rl have "count_nodes (bst_root t) = count_nodes n' + 1"
    by (rule remove_loop_count)
  with ok r rm show ?thesis by (auto simp: size_ok_def)
qed

lemma sorted_remove:
  "size_ok t \<Longrightarrow> sorted (inorder t) \<Longrightarrow> remove t item = (t', res) \<Longrightarrow> sorted (inorder t')"
proof (cases "contains t item")
  case False
  assume "size_ok t" "sorted (inorder t)" "remove t item = (t', res)"
  with False show ?thesis by (simp add: remove_not_contains)
next
  case True
  assume ok: "size_ok t" and s: "sorted (inorder t)" and r: "remove t item = (t', res)"
  from remove_contains [OF ok True] obtain n' where
    rl: "remove_loop item (bst_root t) = Inr (Some item, n')"
    and rm: "remove t item = (t\<lparr>bst_root := n', bst_size := bst_size t - 1\<rparr>, Inr (Some item))"
    by blast
  from rl s have "sorted (inorder_recurse n')"
    unfolding inorder_def by (rule remove_loop_sorted)
  with r rm show ?thesis by (auto simp: inorder_def)
qed

lemma count_nodes_replace_loop:
  "count_nodes (snd (replace_loop item new_item n)) = count_nodes n"
  by (induction n) (auto split: prod.splits)

lemma size_ok_replace: "size_ok t \<Longrightarrow> replace t item new_item = (t', old) \<Longrightarrow> size_ok t'"
  using count_nodes_replace_loop [of item new_item "bst_root t"]
  by (auto simp: replace_def size_ok_def split: prod.splits)

lemma size_ok_clear: "size_ok (clear t)"
  by (simp add: clear_def size_ok_def)

lemma size_ok_empty: "size_ok empty_bst"
  by (simp add: empty_bst_def size_ok_def)

lemma mset_fold_ins:
  "mset (inorder_recurse (fold ins xs n)) = mset xs + mset (inorder_recurse n)"
  by (induction xs arbitrary: n) (auto simp: mset_ins)

lemma sorted_fold_ins:
  "sorted (inorder_recurse n) \<Longrightarrow> sorted (inorder_recurse (fold ins xs n))"
  by (induction xs arbitrary: n) (auto simp: sorted_ins)

lemma rebalance_fold:
  "rebalance t = Inr (t\<lparr>bst_root := fold ins (mid_order (inorder t)) Empty,
                         bst_size := int (length (inorder t))\<rparr>)"
  using rebalance_recurse_fold [OF size_ok_clear, of t "inorder t"]
  by (simp add: rebalance_def clear_def)

lemma size_ok_rebalance: "rebalance t = Inr t' \<Longrightarrow> size_ok t'"
  by (auto simp: rebalance_fold size_ok_def count_nodes_fold_ins length_mid_order)

lemma sorted_rebalance: "rebalance t = Inr t' \<Longrightarrow> sorted (inorder t')"
  by (auto simp: rebalance_fold inorder_def sorted_fold_ins)

lemma reachable_size_ok: "reachable t \<Longrightarrow> size_ok t"
proof (induction rule: reachable.induct)
  case reach_init
  show ?case by (rule size_ok_empty)
next
  case (reach_add t item t')
  then show ?case by (auto simp: add_ins size_ok_add)
next
  case (reach_remove t item t' res)
  then show ?case by (auto intro: size_ok_remove)
next
  case (reach_replace t item new_item t' old)
  then show ?case by (auto intro: size_ok_replace)
next
  case (reach_clear t)
  show ?case by (rule size_ok_clear)
next
  case (reach_rebalance t t')
  then show ?case by (auto intro: size_ok_rebalance)
qed

lemma apply_ops_inv:
  "size_ok t \<Longrightarrow> sorted (inorder t) \<Longrightarrow>
     apply_ops t ops = Inl KeyError
     \<or> (\<exists>t'. apply_ops t ops = Inr t' \<and> size_ok t' \<and> sorted (inorder t'))"
proof (induction ops arbitrary: t)
  case Nil
  then show ?case by simp
next
  case (Cons a ops)
  show ?case
  proof (cases a)
    case (Add item)
    let ?t1 = "t\<lparr>bst_root := ins item (bst_root t), bst_size := bst_size t + 1\<rparr>"
    have "size_ok ?t1" using Cons.prems(1) by (rule size_ok_add)
    moreover have "sorted (inorder ?t1)"
      using Cons.prems(2) by (simp add: inorder_def sorted_ins)
    ultimately have "apply_ops ?t1 ops = Inl KeyError
       \<or> (\<exists>t'. apply_ops ?t1 ops = Inr t' \<and> size_ok t' \<and> sorted (inorder t'))"
      by (rule Cons.IH)
    then show ?thesis by (simp add: Add add_ins [OF Cons.prems(1)])
  next
    case (Remove item)
    show ?thesis
    proof (cases "contains t item")
      case False
      then show ?thesis by (simp add: Remove remove_not_contains)
    next
      case True
      obtain t1 res where r: "remove t item = (t1, res)" by (cases "remove t item")
      from remove_contains [OF Cons.prems(1) True] r have res: "res = Inr (Some item)" by auto
      have "size_ok t1" using Cons.prems(1) r by (rule size_ok_remove)
      moreover have "sorted (inorder t1)" using Cons.prems r by (rule sorted_remove)
      ultimately have "apply_ops t1 ops = Inl KeyError
         \<or> (\<exists>t'. apply_ops t1 ops = Inr t' \<and> size_ok t' \<and> sorted (inorder t'))"
        by (rule Cons.IH)
      then show ?thesis by (simp add: Remove r res)
    qed
  qed
qed

lemma find_recurse_set:
  "sorted (inorder_recurse n) \<Longrightarrow>
     (find_recurse item n \<noteq> None) = (item \<in> set (inorder_recurse n))"
proof (induction n)
  case Empty
  show ?case by simp
next
  case (BSTNode l d r)
  from BSTNode.prems have sl: "sorted (inorder_recurse l)" and sr: "sorted (inorder_recurse r)"
    and ld: "\<forall>x\<in>set (inorder_recurse l). x \<le> d" and dr: "\<forall>x\<in>set (inorder_recurse r). d \<le> x"
    unfolding sorted_inorder_node by blast+
  have il: "(find_recurse item l \<noteq> None) = (item \<in> set (inorder_recurse l))"
    using sl by (rule BSTNode.IH(1))
  have ir: "(find_recurse item r \<noteq> None) = (item \<in> set (inorder_recurse r))"
    using sr by (rule BSTNode.IH(2))
  show ?case
  proof (cases "item = d")
    case True
    then show ?thesis by simp
  next
    case False
    show ?thesis
    proof (cases "item < d")
      case True
      with dr have "item \<notin> set (inorder_recurse r)" by auto
      with True False il show ?thesis by auto
    next
      case nl: False
      with ld False have "item \<notin> set (inorder_recurse l)" by force
      with nl False ir show ?thesis by auto
    qed
  qed
qed

lemma inorder_length: "length (inorder t) = count_nodes (bst_root t)"
  by (simp add: inorder_def length_inorder_recurse)

lemma sorted_mset_eq:
  fixes xs ys :: "'a::linorder list"
  assumes "sorted xs" "sorted ys" "mset xs = mset ys"
  shows "xs = ys"
  using assms by (metis properties_for_sort)

lemma mid_order_3: "mid_order [a, b, c] = [b, a, c]"
  by (simp add: mid_order.simps)

subsection \<open>The default iteration\<close>

lemma iter_loop_length:
  "Empty \<notin> set stack \<Longrightarrow>
     \<exists>items. iter_loop stack = Inr items \<and> length items = sum_list (map count_nodes stack)"
proof (induction stack rule: iter_loop.induct)
  case 1
  show ?case by simp
next
  case (2 stack)
  then show ?case by simp
next
  case (3 l d r stack)
  let ?st = "(if l \<noteq> Empty then [l] else []) @ (if r \<noteq> Empty then [r] else []) @ stack"
  from "3.prems" have "Empty \<notin> set ?st" by auto
  from "3.IH" [OF this] obtain items where
    i: "iter_loop ?st = Inr items" "length items = sum_list (map count_nodes ?st)" by blast
  have "sum_list (map count_nodes ?st) = count_nodes l + count_nodes r + sum_list (map count_nodes stack)"
    by auto
  with i show ?case by simp
qed

lemma iter_bst_length:
  assumes "size_ok t"
  shows "\<exists>items. iter_bst t = Inr items \<and> int (length items) = bst_size t"
proof (cases "bst_root t = Empty")
  case True
  with assms show ?thesis by (simp add: iter_bst_def isEmpty_def size_ok_def)
next
  case False
  then have "Empty \<notin> set [bst_root t]" by simp
  from iter_loop_length [OF this] obtain items where
    "iter_loop [bst_root t] = Inr items" "length items = count_nodes (bst_root t)" by auto
  with assms False show ?thesis by (auto simp: iter_bst_def isEmpty_def size_ok_def)
qed

subsection \<open>The shape and height of a rebalanced tree\<close>

lemma fold_ins_node:
  "fold ins xs (BSTNode l d r) =
     BSTNode (fold ins (filter (\<lambda>x. x < d) xs) l) d (fold ins (filter (\<lambda>x. \<not> x < d) xs) r)"
  by (induction xs arbitrary: l r) auto

lemma set_mid_order: "set (mid_order lst) = set lst"
  using mset_mid_order [of lst] by (metis set_mset_mset)

lemma split_mid:
  assumes "lst \<noteq> []"
  shows "lst = take (length lst div 2) lst @ lst ! (length lst div 2) # drop (length lst div 2 + 1) lst"
  using id_take_nth_drop [OF mid_lt [OF assms]] by simp

lemma fold_mid_order_build:
  "sorted lst \<Longrightarrow> distinct lst \<Longrightarrow> fold ins (mid_order lst) Empty = build lst"
proof (induction lst rule: mid_order.induct)
  case (1 lst)
  show ?case
  proof (cases "lst = []")
    case True
    then show ?thesis by (simp add: mid_order.simps build.simps)
  next
    case False
    let ?m = "length lst div 2"
    let ?L = "take ?m lst"
    let ?R = "drop (?m + 1) lst"
    let ?x = "lst ! ?m"
    have sp: "lst = ?L @ ?x # ?R" using False by (rule split_mid)
    have s: "sorted (?L @ ?x # ?R)" and d: "distinct (?L @ ?x # ?R)"
      using "1.prems" sp by simp_all
    from s have sL: "sorted ?L" and sR: "sorted ?R"
      and Lle: "\<forall>y\<in>set ?L. y \<le> ?x" and Rge: "\<forall>y\<in>set ?R. ?x \<le> y"
      by (auto simp: sorted_append)
    from d have dL: "distinct ?L" and dR: "distinct ?R"
      and xL: "?x \<notin> set ?L" and xR: "?x \<notin> set ?R"
      by auto
    from Lle xL have Llt: "\<forall>y\<in>set ?L. y < ?x" by (auto simp: less_le)
    from Rge have Rnl: "\<forall>y\<in>set ?R. \<not> y < ?x" by (auto simp: not_less)
    have fL: "filter (\<lambda>y. y < ?x) (mid_order ?L @ mid_order ?R) = mid_order ?L"
      using Llt Rnl by (simp add: set_mid_order)
    have fR: "filter (\<lambda>y. \<not> y < ?x) (mid_order ?L @ mid_order ?R) = mid_order ?R"
      using Llt Rnl by (simp add: set_mid_order)
    have "fold ins (mid_order lst) Empty
        = fold ins (mid_order ?L @ mid_order ?R) (BSTNode Empty ?x Empty)"
      using False by (subst mid_order.simps) simp
    also have "\<dots> = BSTNode (fold ins (mid_order ?L) Empty) ?x (fold ins (mid_order ?R) Empty)"
      by (simp only: fold_ins_node fL fR)
    also have "\<dots> = BSTNode (build ?L) ?x (build ?R)"
      using "1.IH"(1) [OF False sL dL] "1.IH"(2) [OF False sR dR] by simp
    also have "\<dots> = build lst"
      using False by (subst (3) build.simps) simp
    finally show ?thesis .
  qed
qed

lemma height1_build:
  "(lst = [] \<longrightarrow> height1 (build lst) = - 1)
   \<and> (lst \<noteq> [] \<longrightarrow> 0 \<le> height1 (build lst) \<and> 2 ^ nat (height1 (build lst)) \<le> length lst)"
proof (induction lst rule: build.induct)
  case (1 lst)
  show ?case
  proof (cases "lst = []")
    case True
    then show ?thesis by (simp add: build.simps)
  next
    case False
    let ?m = "length lst div 2"
    let ?L = "take ?m lst"
    let ?R = "drop (?m + 1) lst"
    let ?hL = "height1 (build ?L)"
    let ?hR = "height1 (build ?R)"
    have h: "height1 (build lst) = 1 + max ?hL ?hR"
      using False by (subst build.simps) simp
    have lenL: "length ?L = ?m" using mid_lt [OF False] by simp
    have lenR: "length ?R = length lst - ?m - 1" by simp
    have Rm: "length ?R \<le> ?m" unfolding lenR by linarith
    have m2: "2 * ?m \<le> length lst" by simp
    have iL: "(?L = [] \<longrightarrow> ?hL = - 1) \<and> (?L \<noteq> [] \<longrightarrow> 0 \<le> ?hL \<and> 2 ^ nat ?hL \<le> length ?L)"
      using "1.IH"(1) [OF False] .
    have iR: "(?R = [] \<longrightarrow> ?hR = - 1) \<and> (?R \<noteq> [] \<longrightarrow> 0 \<le> ?hR \<and> 2 ^ nat ?hR \<le> length ?R)"
      using "1.IH"(2) [OF False] .
    have bL: "- 1 \<le> ?hL" using iL by (cases "?L = []") auto
    have bR: "- 1 \<le> ?hR" using iR by (cases "?R = []") auto
    have nonneg: "0 \<le> height1 (build lst)" using h bL bR by simp
    have pL: "2 * 2 ^ nat ?hL \<le> length lst" if "0 \<le> ?hL"
    proof -
      from that iL have "?L \<noteq> []" by auto
      with iL have "(2::nat) ^ nat ?hL \<le> length ?L" by blast
      with lenL m2 show ?thesis by linarith
    qed
    have pR: "2 * 2 ^ nat ?hR \<le> length lst" if "0 \<le> ?hR"
    proof -
      from that iR have "?R \<noteq> []" by auto
      with iR have "(2::nat) ^ nat ?hR \<le> length ?R" by blast
      with Rm m2 show ?thesis by linarith
    qed
    have pw: "(2::nat) ^ nat (height1 (build lst)) \<le> length lst"
    proof (cases "0 \<le> max ?hL ?hR")
      case True
      then have e: "nat (1 + max ?hL ?hR) = Suc (nat (max ?hL ?hR))"
        by (metis Suc_nat_eq_nat_zadd1)
      show ?thesis
      proof (cases "?hL \<le> ?hR")
        case le: True
        with True have "0 \<le> ?hR" by simp
        from pR [OF this] le show ?thesis unfolding h e by (simp add: max_def)
      next
        case gt: False
        with True have "0 \<le> ?hL" by simp
        from pL [OF this] gt show ?thesis unfolding h e by (simp add: max_def)
      qed
    next
      case neg: False
      with bL bR have "max ?hL ?hR = - 1" by linarith
      then have "height1 (build lst) = 0" using h by simp
      moreover have "1 \<le> length lst" using False by (cases lst) auto
      ultimately show ?thesis by simp
    qed
    from False nonneg pw show ?thesis by simp
  qed
qed

lemma le_ceiling_log2:
  assumes "0 \<le> h" and "2 ^ nat h \<le> n"
  shows "h \<le> \<lceil>log 2 (real n + 1)\<rceil> - 1"
proof -
  have "(2::real) ^ nat h \<le> real n" using assms(2)
    by (metis of_nat_le_iff of_nat_numeral of_nat_power)
  then have lt: "(2::real) ^ nat h < real n + 1" by linarith
  have pos: "(0::real) < 2 ^ nat h" "(0::real) < real n + 1" by simp_all
  have "log 2 ((2::real) ^ nat h) < log 2 (real n + 1)"
  proof -
    have "(1::real) < 2" by simp
    from log_less_cancel_iff [OF this pos] lt show ?thesis by blast
  qed
  then have "real (nat h) < log 2 (real n + 1)" by simp
  then have "real_of_int h < log 2 (real n + 1)" using assms(1) by simp
  then have "h < \<lceil>log 2 (real n + 1)\<rceil>" by linarith
  then show ?thesis by simp
qed

lemma height1_build_bound:
  "height1 (build lst) \<le> \<lceil>log 2 (real (length lst) + 1)\<rceil> - 1"
proof (cases "lst = []")
  case True
  then show ?thesis using height1_build [of lst] by simp
next
  case False
  with height1_build [of lst] have "0 \<le> height1 (build lst)"
    and "2 ^ nat (height1 (build lst)) \<le> length lst" by blast+
  then show ?thesis by (rule le_ceiling_log2)
qed

lemma log2_4: "log 2 4 = (2::real)"
proof -
  have "log 2 (2 ^ 2) = real 2" by (rule log_pow_cancel) simp_all
  then show ?thesis by simp
qed

subsection \<open>Range queries and predecessors\<close>

lemma inorder_recurse_map: "inorder_recurse (map_bst f n) = map f (inorder_recurse n)"
  by (induction n) auto

lemma inorder_as_pyvals: "inorder (as_pyvals f t) = map f (inorder t)"
  by (simp add: inorder_def as_pyvals_def inorder_recurse_map)

lemma range_find_loop_ints:
  "range_find_loop (map PyInt xs) (PyInt low) (PyInt high) acc =
     Inr (acc @ map PyInt (filter (\<lambda>x. low \<le> x \<and> x \<le> high) xs))"
  by (induction xs arbitrary: acc) auto

lemma predecessor_loop_spec:
  "n \<noteq> Empty \<Longrightarrow> sorted (inorder_recurse n) \<Longrightarrow>
     \<exists>ps. predecessor_loop item n acc = Inr (acc @ ps)
        \<and> (\<forall>p\<in>set ps. p \<in> set (inorder_recurse n) \<and> p < item)
        \<and> (\<forall>x\<in>set (inorder_recurse n). x < item \<longrightarrow> (\<exists>p\<in>set ps. x \<le> p))"
proof (induction n arbitrary: acc)
  case Empty
  then show ?case by simp
next
  case (BSTNode l d r)
  from BSTNode.prems(2) have sl: "sorted (inorder_recurse l)" and sr: "sorted (inorder_recurse r)"
    and ld: "\<forall>x\<in>set (inorder_recurse l). x \<le> d" and dr: "\<forall>x\<in>set (inorder_recurse r). d \<le> x"
    unfolding sorted_inorder_node by blast+
  have goleft: ?case if le: "item \<le> d"
  proof (cases "l = Empty")
    case True
    have "predecessor_loop item (BSTNode l d r) acc = Inr (acc @ [])"
      using le True by auto
    moreover have "\<forall>x\<in>set (inorder_recurse (BSTNode l d r)). \<not> x < item"
      using le True dr by auto
    ultimately show ?thesis by (intro exI [of _ "[]"]) simp
  next
    case False
    from BSTNode.IH(1) [OF False sl, of acc] obtain ps where
      ps: "predecessor_loop item l acc = Inr (acc @ ps)"
        "\<forall>p\<in>set ps. p \<in> set (inorder_recurse l) \<and> p < item"
        "\<forall>x\<in>set (inorder_recurse l). x < item \<longrightarrow> (\<exists>p\<in>set ps. x \<le> p)"
      by blast
    have "predecessor_loop item (BSTNode l d r) acc = Inr (acc @ ps)"
      using le False ps(1) by auto
    moreover have "\<forall>p\<in>set ps. p \<in> set (inorder_recurse (BSTNode l d r)) \<and> p < item"
      using ps(2) by auto
    moreover have "\<forall>x\<in>set (inorder_recurse (BSTNode l d r)). x < item \<longrightarrow> (\<exists>p\<in>set ps. x \<le> p)"
      using ps(3) le dr by auto
    ultimately show ?thesis by blast
  qed
  have goright: ?case if gt: "d < item"
  proof (cases "r = Empty")
    case True
    have "predecessor_loop item (BSTNode l d r) acc = Inr (acc @ [d])"
      using gt True by auto
    moreover have "\<forall>x\<in>set (inorder_recurse (BSTNode l d r)). x \<le> d"
      using True ld by auto
    ultimately show ?thesis using gt by (intro exI [of _ "[d]"]) simp
  next
    case False
    from BSTNode.IH(2) [OF False sr, of "acc @ [d]"] obtain ps where
      ps: "predecessor_loop item r (acc @ [d]) = Inr ((acc @ [d]) @ ps)"
        "\<forall>p\<in>set ps. p \<in> set (inorder_recurse r) \<and> p < item"
        "\<forall>x\<in>set (inorder_recurse r). x < item \<longrightarrow> (\<exists>p\<in>set ps. x \<le> p)"
      by blast
    have "predecessor_loop item (BSTNode l d r) acc = Inr (acc @ (d # ps))"
      using gt False ps(1) by auto
    moreover have "\<forall>p\<in>set (d # ps). p \<in> set (inorder_recurse (BSTNode l d r)) \<and> p < item"
      using ps(2) gt by auto
    moreover have "\<forall>x\<in>set (inorder_recurse (BSTNode l d r)). x < item \<longrightarrow> (\<exists>p\<in>set (d # ps). x \<le> p)"
      using ps(3) ld by auto
    ultimately show ?thesis by blast
  qed
  from goleft goright show ?case by (cases "item \<le> d") auto
qed

lemma fold_max_Max: "fold max ps (p::'a::linorder) = Max (set (p # ps))"
  by (simp only: Max.set_eq_fold)

text \<open>On integers the range test is the comparison with the bounds: for a tree of
  integers and integer bounds, \<open>range_find(low, high)\<close> returns the in-order list filtered
  to the items \<open>x\<close> with \<open>low <= x <= high\<close>; from 1, ..., 10, \<open>range_find(3, 7)\<close> is
  \<open>[3, 4, 5, 6, 7]\<close>.\<close>

lemma range_find_ints:
  "range_find (as_pyvals PyInt t) (PyInt low) (PyInt high)
     = Inr (map PyInt (filter (\<lambda>x. low \<le> x \<and> x \<le> high) (inorder t)))
   \<and> set (filter (\<lambda>x. low \<le> x \<and> x \<le> high) (inorder t))
       = {x \<in> set (inorder t). low \<le> x \<and> x \<le> high}
   \<and> (sorted (inorder t) \<longrightarrow> sorted (filter (\<lambda>x. low \<le> x \<and> x \<le> high) (inorder t)))"
  by (simp add: range_find_def inorder_as_pyvals range_find_loop_ints sorted_wrt_filter)

lemma range_find_ints_example:
  "LinkedBST_init [1, 2, 3, 4, 5, 6, 7, 8, 9, 10] = Inr range10
   \<and> sorted (inorder range10)
   \<and> range_find (as_pyvals PyInt range10) (PyInt 3) (PyInt 7)
       = Inr [PyInt 3, PyInt 4, PyInt 5, PyInt 6, PyInt 7]"
proof -
  have a: "LinkedBST_init [1, 2, 3, 4, 5, 6, 7, 8, 9, 10] = Inr range10"
    by (simp add: LinkedBST_init_def empty_bst_def add_def isEmpty_def range10_def)
  have i: "inorder range10 = [1, 2, 3, 4, 5, 6, 7, 8, 9, 10]"
    by (simp add: range10_def inorder_def)
  from range_find_ints [of range10 3 7] a i show ?thesis by simp
qed

text \<open>\<open>replace\<close> leads out of the ordered trees: the tree below is reachable, and its
  in-order list is not sorted.\<close>

lemma replaced_tree_reachable:
  "LinkedBST_init [5, 3, 8] = Inr five_three_eight
   \<and> replace five_three_eight 3 9 = (replaced_tree, Some 3)
   \<and> reachable replaced_tree"
proof -
  let ?t1 = "\<lparr>bst_root = leaf (5::int), bst_size = 1\<rparr>"
  let ?t2 = "\<lparr>bst_root = BSTNode (leaf 3) (5::int) Empty, bst_size = 2\<rparr>"
  have a1: "add empty_bst 5 = Inr ?t1"
    by (simp add: add_def isEmpty_def empty_bst_def leaf_def)
  have a2: "add ?t1 3 = Inr ?t2" by (simp add: add_def isEmpty_def leaf_def)
  have a3: "add ?t2 8 = Inr five_three_eight"
    by (simp add: add_def isEmpty_def leaf_def five_three_eight_def)
  have i: "LinkedBST_init [5, 3, 8] = Inr five_three_eight"
    by (simp add: LinkedBST_init_def a1 a2 a3)
  have r: "replace five_three_eight 3 9 = (replaced_tree, Some 3)"
    by (simp add: replace_def five_three_eight_def replaced_tree_def leaf_def)
  from reach_init a1 have "reachable ?t1" by (rule reach_add)
  from this a2 have "reachable ?t2" by (rule reach_add)
  from this a3 have "reachable five_three_eight" by (rule reach_add)
  from this r have "reachable replaced_tree" by (rule reach_replace)
  with i r show ?thesis by blast
qed

subsection \<open>The claims\<close>

text \<open>C1. Whatever sequence of \<open>add\<close> and \<open>remove\<close> calls is run from the empty tree, if
  every \<open>remove\<close> in it succeeds the in-order traversal of the resulting tree is in
  non-decreasing order; and the only way the sequence can fail is a \<open>KeyError\<close> of a
  \<open>remove\<close>.\<close>

theorem inorder_sorted_after_ops:
  "(\<forall>t. apply_ops empty_bst ops = Inr t \<longrightarrow> sorted (inorder t))
   \<and> (\<forall>e. apply_ops empty_bst ops = Inl e \<longrightarrow> e = KeyError)"
  using apply_ops_inv [OF size_ok_empty, of ops]
  by (auto simp: inorder_def empty_bst_def)

theorem inorder_sorted_after_ops_witness:
  "apply_ops empty_bst [Add 5, Add 3, Add 8, Add 3, Remove 5, Add 1, Remove 8]
     = Inr \<lparr>bst_root = BSTNode (BSTNode (BSTNode Empty 1 Empty) 3 Empty) (3::int) Empty, bst_size = 3\<rparr>
   \<and> sorted (inorder \<lparr>bst_root = BSTNode (BSTNode (BSTNode Empty 1 Empty) 3 Empty) (3::int) Empty, bst_size = 3\<rparr>)"
proof -
  have "apply_ops empty_bst [Add 5, Add 3, Add 8, Add 3, Remove 5, Add 1, Remove 8]
     = Inr \<lparr>bst_root = BSTNode (BSTNode (BSTNode Empty 1 Empty) 3 Empty) (3::int) Empty, bst_size = 3\<rparr>"
    by (simp add: empty_bst_def add_def isEmpty_def remove_def contains_def find_bst_def)
  with inorder_sorted_after_ops show ?thesis by blast
qed

text \<open>C2 (the code at inputs where it departs from the claim). On the tree built by
  inserting 10 and then 5, \<open>successor(5)\<close> returns 5, the argument itself, where the smallest
  stored item greater than 5 is 10. On the tree built by inserting 10, 2, 5,
  \<open>successor(3)\<close> returns 10, where the smallest stored item greater than 3 is 5. On the
  tree built by inserting 1, 3, 5, 7, 9 in this order the example values of the spec are
  returned: \<open>successor(5)\<close> is 7 and \<open>successor(9)\<close> is \<open>None\<close>.\<close>

theorem successor_not_smallest_above:
  "LinkedBST_init [10, 5] = Inr ten_five \<and> sorted (inorder ten_five)
   \<and> successor ten_five 5 = Inr (Some 5)
   \<and> LinkedBST_init [10, 2, 5] = Inr ten_two_five \<and> inorder ten_two_five = [2, 5, 10]
   \<and> successor ten_two_five 3 = Inr (Some 10)
   \<and> LinkedBST_init [1, 3, 5, 7, 9] = Inr odd5
   \<and> successor odd5 5 = Inr (Some 7) \<and> successor odd5 9 = Inr None"
  by (simp add: LinkedBST_init_def empty_bst_def add_def isEmpty_def ten_five_def
      ten_two_five_def odd5_def inorder_def successor_def)

text \<open>C3. \<open>remove(item)\<close> raises \<open>KeyError\<close> exactly when \<open>item in self\<close> is false, and then
  the tree (root and size) is as it was. When the item is in a tree whose size counter
  equals its number of nodes, \<open>remove\<close> returns the item, which is one of the stored items,
  takes one occurrence of it out of the tree and lowers the size by one. On a tree whose
  in-order list is sorted, \<open>item in self\<close> holds exactly for the stored items.\<close>

theorem remove_KeyError_iff:
  "(snd (remove t item) = Inl KeyError) = (\<not> contains t item)
   \<and> (\<not> contains t item \<longrightarrow> remove t item = (t, Inl KeyError))
   \<and> (size_ok t \<and> contains t item \<longrightarrow>
        snd (remove t item) = Inr (Some item) \<and> item \<in> set (inorder t)
        \<and> mset (inorder t) = add_mset item (mset (inorder (fst (remove t item))))
        \<and> bst_size (fst (remove t item)) = bst_size t - 1)
   \<and> (sorted (inorder t) \<longrightarrow> contains t item = (item \<in> set (inorder t)))"
proof -
  have a: "\<not> contains t item \<Longrightarrow> remove t item = (t, Inl KeyError)"
    by (rule remove_not_contains)
  have b: "contains t item \<Longrightarrow> snd (remove t item) \<noteq> Inl KeyError"
    using remove_loop_total [of item "bst_root t"]
    by (auto simp: remove_def split: option.splits)
  have c: "snd (remove t item) = Inr (Some item) \<and> item \<in> set (inorder t)
        \<and> mset (inorder t) = add_mset item (mset (inorder (fst (remove t item))))
        \<and> bst_size (fst (remove t item)) = bst_size t - 1"
    if ok: "size_ok t" and ct: "contains t item"
  proof -
    from remove_contains [OF ok ct] obtain n' where
      rl: "remove_loop item (bst_root t) = Inr (Some item, n')"
      and rm: "remove t item = (t\<lparr>bst_root := n', bst_size := bst_size t - 1\<rparr>, Inr (Some item))"
      by blast
    from rl have m: "mset (inorder_recurse (bst_root t)) = add_mset item (mset (inorder_recurse n'))"
      by (rule remove_loop_mset)
    then have "item \<in># mset (inorder_recurse (bst_root t))" by simp
    then have "item \<in> set (inorder t)" by (simp add: inorder_def)
    with rm m show ?thesis by (simp add: inorder_def)
  qed
  have d: "sorted (inorder t) \<Longrightarrow> contains t item = (item \<in> set (inorder t))"
    using find_recurse_set [of "bst_root t" item]
    by (simp add: contains_def find_bst_def inorder_def)
  from a b c d show ?thesis by (cases "contains t item") auto
qed


theorem remove_KeyError_iff_witness:
  "size_ok scenario_tree \<and> contains scenario_tree 5 \<and> \<not> contains scenario_tree 6
   \<and> sorted (inorder scenario_tree)
   \<and> snd (remove scenario_tree 5) = Inr (Some 5)
   \<and> 5 \<in> set (inorder scenario_tree)
   \<and> bst_size (fst (remove scenario_tree 5)) = 6
   \<and> remove scenario_tree 6 = (scenario_tree, Inl KeyError)"
proof -
  have h: "size_ok scenario_tree" "contains scenario_tree 5" "\<not> contains scenario_tree 6"
    "sorted (inorder scenario_tree)" "bst_size scenario_tree = 7"
    by (simp_all add: size_ok_def scenario_tree_def leaf_def contains_def find_bst_def inorder_def)
  from remove_KeyError_iff [of scenario_tree 5] remove_KeyError_iff [of scenario_tree 6] h
  show ?thesis by simp
qed

text \<open>C4. In every reachable state the size counter equals the number of nodes reachable
  from the root, which is the number of items of the in-order traversal and the number of
  items the default (pre-order) iteration yields; the root is absent
  exactly when the size is 0; \<open>add\<close> returns and raises the size by exactly 1 (also for an
  item already stored); every \<open>remove\<close> that returns lowers it by exactly 1; after \<open>clear\<close>
  it is 0.\<close>

theorem size_counts_nodes:
  assumes "reachable t"
  shows "bst_size t = int (count_nodes (bst_root t))
    \<and> bst_size t = int (length (inorder t))
    \<and> (\<exists>items. iter_bst t = Inr items \<and> bst_size t = int (length items))
    \<and> (bst_root t = Empty) = (bst_size t = 0)
    \<and> (\<exists>t'. add t item = Inr t' \<and> bst_size t' = bst_size t + 1)
    \<and> (\<forall>t' v. remove t item = (t', Inr v) \<longrightarrow> bst_size t' = bst_size t - 1)
    \<and> bst_size (clear t) = 0"
proof -
  from assms have ok: "size_ok t" by (rule reachable_size_ok)
  then have a: "bst_size t = int (count_nodes (bst_root t))" by (simp add: size_ok_def)
  then have b: "bst_size t = int (length (inorder t))" by (simp add: inorder_length)
  from a have c: "(bst_root t = Empty) = (bst_size t = 0)" by (simp add: count_nodes_0)
  from iter_bst_length [OF ok]
  have g: "\<exists>items. iter_bst t = Inr items \<and> bst_size t = int (length items)" by auto
  have d: "\<exists>t'. add t item = Inr t' \<and> bst_size t' = bst_size t + 1"
    by (simp add: add_ins [OF ok])
  have e: "bst_size t' = bst_size t - 1" if r: "remove t item = (t', Inr v)" for t' v
  proof (cases "contains t item")
    case False
    with r show ?thesis by (simp add: remove_not_contains)
  next
    case True
    from remove_contains [OF ok True] r show ?thesis by auto
  qed
  have f: "bst_size (clear t) = 0" by (simp add: clear_def)
  from a b c d e f g show ?thesis by blast
qed

theorem size_counts_nodes_witness:
  "reachable \<lparr>bst_root = BSTNode Empty (5::int) (BSTNode Empty 5 Empty), bst_size = 2\<rparr>
   \<and> bst_size \<lparr>bst_root = BSTNode Empty (5::int) (BSTNode Empty 5 Empty), bst_size = 2\<rparr>
       = int (count_nodes (BSTNode Empty (5::int) (BSTNode Empty 5 Empty)))
   \<and> (\<exists>t'. add \<lparr>bst_root = BSTNode Empty (5::int) (BSTNode Empty 5 Empty), bst_size = 2\<rparr> 5 = Inr t'
         \<and> bst_size t' = 3)"
proof -
  let ?t1 = "\<lparr>bst_root = BSTNode Empty (5::int) Empty, bst_size = 1\<rparr>"
  let ?t2 = "\<lparr>bst_root = BSTNode Empty (5::int) (BSTNode Empty 5 Empty), bst_size = 2\<rparr>"
  have "add empty_bst 5 = Inr ?t1" by (simp add: add_def isEmpty_def empty_bst_def)
  with reach_init have "reachable ?t1" by (rule reach_add)
  moreover have "add ?t1 5 = Inr ?t2" by (simp add: add_def isEmpty_def)
  ultimately have r: "reachable ?t2" by (rule reach_add)
  from size_counts_nodes [OF r, of 5] r show ?thesis by simp
qed

text \<open>C5 (as amended). \<open>rebalance\<close> returns for every tree, and the tree it leaves holds
  the same items with the same multiplicities; its size counter is the number of items, and
  its in-order list is sorted. For every tree whose in-order list is in non-decreasing order
  (the order invariant; in particular a tree built by inserting a sorted list), the in-order
  list after \<open>rebalance\<close> equals the one before, element for element.\<close>

theorem rebalance_preserves_items:
  "\<exists>t'. rebalance t = Inr t'
     \<and> mset (inorder t') = mset (inorder t)
     \<and> bst_size t' = int (length (inorder t))
     \<and> bst_size t' = int (count_nodes (bst_root t'))
     \<and> sorted (inorder t')
     \<and> (sorted (inorder t) \<longrightarrow> inorder t' = inorder t)"
proof -
  let ?t' = "t\<lparr>bst_root := fold ins (mid_order (inorder t)) Empty,
                bst_size := int (length (inorder t))\<rparr>"
  have r: "rebalance t = Inr ?t'" by (rule rebalance_fold)
  have m: "mset (inorder ?t') = mset (inorder t)"
    by (simp add: inorder_def mset_fold_ins mset_mid_order)
  have s: "sorted (inorder ?t')" using r by (rule sorted_rebalance)
  have c: "bst_size ?t' = int (count_nodes (bst_root ?t'))"
    using size_ok_rebalance [OF r] by (simp add: size_ok_def)
  have e: "inorder ?t' = inorder t" if "sorted (inorder t)"
    using s that m by (rule sorted_mset_eq)
  from r m s c e show ?thesis by simp
qed

theorem rebalance_preserves_items_witness:
  "LinkedBST_init [1, 2, 3] = Inr chain3 \<and> sorted (inorder chain3)
   \<and> rebalance chain3 = Inr \<lparr>bst_root = BSTNode (leaf 1) 2 (leaf 3), bst_size = 3\<rparr>
   \<and> (\<exists>t'. rebalance chain3 = Inr t' \<and> inorder t' = inorder chain3)"
proof -
  have a: "LinkedBST_init [1, 2, 3] = Inr chain3"
    by (simp add: LinkedBST_init_def empty_bst_def add_def isEmpty_def chain3_def)
  have s: "sorted (inorder chain3)" by (simp add: chain3_def inorder_def)
  have b: "rebalance chain3 = Inr \<lparr>bst_root = BSTNode (leaf 1) 2 (leaf 3), bst_size = 3\<rparr>"
    by (simp add: rebalance_fold chain3_def inorder_def mid_order_3 leaf_def)
  from rebalance_preserves_items [of chain3] s a b show ?thesis by auto
qed

text \<open>C5 as the spec states it fails on a tree that \<open>replace\<close> has left out of order:
  \<open>LinkedBST([5, 3, 8])\<close> after \<open>replace(3, 9)\<close> has the in-order list \<open>[9, 5, 8]\<close>, and after
  \<open>rebalance()\<close> the in-order list is \<open>[5, 8, 9]\<close>.\<close>

theorem rebalance_reorders_replaced_tree:
  "LinkedBST_init [5, 3, 8] = Inr five_three_eight
   \<and> replace five_three_eight 3 9 = (replaced_tree, Some 3)
   \<and> reachable replaced_tree
   \<and> inorder replaced_tree = [9, 5, 8]
   \<and> rebalance replaced_tree = Inr replaced_rebalanced
   \<and> inorder replaced_rebalanced = [5, 8, 9]
   \<and> inorder replaced_rebalanced \<noteq> inorder replaced_tree"
proof -
  have a: "inorder replaced_tree = [9, 5, 8]"
    by (simp add: replaced_tree_def inorder_def leaf_def)
  have b: "rebalance replaced_tree = Inr replaced_rebalanced"
    by (simp add: rebalance_fold inorder_def mid_order_3 replaced_tree_def
        replaced_rebalanced_def leaf_def)
  have c: "inorder replaced_rebalanced = [5, 8, 9]"
    by (simp add: replaced_rebalanced_def inorder_def leaf_def)
  from replaced_tree_reachable a b c show ?thesis by simp
qed

text \<open>C6 (as amended). For every tree whose in-order list is sorted and holds \<open>n\<close> pairwise
  distinct items, \<open>rebalance\<close> returns and leaves a tree with
  \<open>height() <= ceil(log2(n+1)) - 1\<close>, on which \<open>is_balanced()\<close> returns true.\<close>

theorem rebalance_balanced_distinct:
  assumes "sorted (inorder t)" and "distinct (inorder t)"
  shows "\<exists>t'. rebalance t = Inr t'
     \<and> height t' \<le> \<lceil>log 2 (real (length (inorder t)) + 1)\<rceil> - 1
     \<and> bst_size t' = int (length (inorder t))
     \<and> is_balanced t' = Inr True"
proof -
  let ?t' = "t\<lparr>bst_root := fold ins (mid_order (inorder t)) Empty,
                bst_size := int (length (inorder t))\<rparr>"
  have r: "rebalance t = Inr ?t'" by (rule rebalance_fold)
  have b: "bst_root ?t' = build (inorder t)"
    using fold_mid_order_build [OF assms] by simp
  have h: "height ?t' \<le> \<lceil>log 2 (real (length (inorder t)) + 1)\<rceil> - 1"
    unfolding height_def b by (rule height1_build_bound)
  have s: "bst_size ?t' = int (length (inorder t))" by simp
  have "real_of_int (bst_size ?t' + 1) = real (length (inorder t)) + 1" by simp
  with h have "is_balanced ?t' = Inr True"
    unfolding is_balanced_def by (simp del: fold_simps)
  with r h s show ?thesis by blast
qed

theorem rebalance_balanced_distinct_witness:
  "sorted (inorder chain3) \<and> distinct (inorder chain3)
   \<and> (\<exists>t'. rebalance chain3 = Inr t'
         \<and> height t' \<le> \<lceil>log 2 (real (length (inorder chain3)) + 1)\<rceil> - 1
         \<and> is_balanced t' = Inr True)"
proof -
  have s: "sorted (inorder chain3)" and d: "distinct (inorder chain3)"
    by (simp_all add: chain3_def inorder_def)
  from rebalance_balanced_distinct [OF s d] s d show ?thesis by blast
qed

text \<open>C6 as the spec states it fails when items are repeated: the tree holding 1, 1, 1 is a
  chain of right children, \<open>rebalance\<close> rebuilds the same chain, of height 2, while
  \<open>ceil(log2(3+1)) - 1\<close> is 1, and \<open>is_balanced()\<close> returns false.\<close>

theorem rebalance_duplicates_unbalanced:
  "LinkedBST_init [1, 1, 1] = Inr dup3 \<and> rebalance dup3 = Inr dup3
   \<and> height dup3 = 2 \<and> bst_size dup3 = 3 \<and> \<lceil>log 2 (3 + 1)\<rceil> - 1 = (1::int)
   \<and> is_balanced dup3 = Inr False"
  by (simp add: LinkedBST_init_def empty_bst_def add_def isEmpty_def dup3_def
      rebalance_fold inorder_def mid_order_3 height_def is_balanced_def log2_4)

text \<open>C7 (the code at an input where it departs from the claim). On the tree holding the
  string "b", \<open>range_find("a", "c")\<close> raises \<open>TypeError\<close> (from \<open>high + 1\<close>), where the
  claim, and the docstring of the method, give the list holding "b", since
  \<open>"a" <= "b" <= "c"\<close>.\<close>

theorem range_find_strings_TypeError:
  "LinkedBST_init [''b''] = Inr str_tree \<and> inorder str_tree = [''b'']
   \<and> ''a'' \<le> ''b'' \<and> ''b'' \<le> ''c''
   \<and> range_find (as_pyvals PyStr str_tree) (PyStr ''a'') (PyStr ''c'') = Inl TypeError"
  by (simp add: LinkedBST_init_def empty_bst_def add_def isEmpty_def str_tree_def inorder_def
      range_find_def as_pyvals_def less_eq_char_def)

text \<open>C8 (as amended). For every tree that has a root and whose in-order list is in
  non-decreasing order (the order invariant), and every item, \<open>predecessor(item)\<close>
  returns: \<open>None\<close> when no stored item is less than \<open>item\<close>, and otherwise a stored item
  less than \<open>item\<close> that no stored item less than \<open>item\<close> exceeds. On the tree built from
  1, 3, 5, 7, 9, \<open>predecessor(5)\<close> is 3 and \<open>predecessor(1)\<close> is \<open>None\<close> (the witness).\<close>

theorem predecessor_largest_below:
  assumes "bst_root t \<noteq> Empty" and "sorted (inorder t)"
  shows "\<exists>res. predecessor t item = Inr res \<and>
     (case res of
        None \<Rightarrow> \<forall>x\<in>set (inorder t). \<not> x < item
      | Some p \<Rightarrow> p \<in> set (inorder t) \<and> p < item
                  \<and> (\<forall>x\<in>set (inorder t). x < item \<longrightarrow> x \<le> p))"
proof -
  from predecessor_loop_spec [OF assms(1) assms(2) [unfolded inorder_def], of item "[]"]
  obtain ps where
    ps: "predecessor_loop item (bst_root t) [] = Inr ps"
      "\<forall>p\<in>set ps. p \<in> set (inorder t) \<and> p < item"
      "\<forall>x\<in>set (inorder t). x < item \<longrightarrow> (\<exists>p\<in>set ps. x \<le> p)"
    unfolding inorder_def by auto
  show ?thesis
  proof (cases ps)
    case Nil
    with ps have "predecessor t item = Inr None" by (simp add: predecessor_def)
    moreover from ps(3) Nil have "\<forall>x\<in>set (inorder t). \<not> x < item" by auto
    ultimately show ?thesis by simp
  next
    case (Cons p ps')
    let ?m = "Max (set ps)"
    have r: "predecessor t item = Inr (Some ?m)"
      using ps(1) Cons by (simp add: predecessor_def fold_max_Max del: set_simps Max.set_eq_fold)
    have fin: "finite (set ps)" and ne: "set ps \<noteq> {}" using Cons by auto
    have mem: "?m \<in> set ps" using fin ne by (rule Max_in)
    with ps(2) have a: "?m \<in> set (inorder t)" "?m < item" by auto
    have b: "x \<le> ?m" if "x \<in> set (inorder t)" "x < item" for x
    proof -
      from ps(3) that obtain q where q: "q \<in> set ps" "x \<le> q" by blast
      from fin q(1) have "q \<le> ?m" by (rule Max_ge)
      with q(2) show ?thesis by (rule order_trans)
    qed
    from r a b show ?thesis by auto
  qed
qed

theorem predecessor_largest_below_witness:
  "LinkedBST_init [1, 3, 5, 7, 9] = Inr odd5 \<and> bst_root odd5 \<noteq> Empty \<and> sorted (inorder odd5)
   \<and> predecessor odd5 5 = Inr (Some 3) \<and> predecessor odd5 1 = Inr None
   \<and> (\<exists>res. predecessor odd5 5 = Inr res \<and> res \<noteq> None)"
proof -
  have a: "LinkedBST_init [1, 3, 5, 7, 9] = Inr odd5"
    by (simp add: LinkedBST_init_def empty_bst_def add_def isEmpty_def odd5_def)
  have h1: "bst_root odd5 \<noteq> Empty" and h2: "sorted (inorder odd5)"
    by (simp_all add: odd5_def inorder_def)
  have e: "predecessor odd5 5 = Inr (Some 3)" "predecessor odd5 1 = Inr None"
    by (simp_all add: odd5_def predecessor_def)
  from predecessor_largest_below [OF h1 h2, of 5] e have "\<exists>res. predecessor odd5 5 = Inr res \<and> res \<noteq> None"
    by auto
  with a h1 h2 e show ?thesis by blast
qed

text \<open>C8 as the spec states it fails on a tree that \<open>replace\<close> has left out of order: on
  \<open>LinkedBST([5, 3, 8])\<close> after \<open>replace(3, 9)\<close>, a tree with a root, \<open>predecessor(10)\<close>
  returns 8, while 9 is stored and lies between 8 and 10.\<close>

theorem predecessor_misses_replaced_item:
  "LinkedBST_init [5, 3, 8] = Inr five_three_eight
   \<and> replace five_three_eight 3 9 = (replaced_tree, Some 3)
   \<and> reachable replaced_tree
   \<and> bst_root replaced_tree \<noteq> Empty
   \<and> predecessor replaced_tree 10 = Inr (Some 8)
   \<and> 9 \<in> set (inorder replaced_tree) \<and> (8::int) < 9 \<and> (9::int) < 10"
proof -
  have a: "bst_root replaced_tree \<noteq> Empty" by (simp add: replaced_tree_def)
  have b: "predecessor replaced_tree 10 = Inr (Some 8)"
    by (simp add: predecessor_def replaced_tree_def leaf_def)
  have c: "9 \<in> set (inorder replaced_tree)"
    by (simp add: replaced_tree_def inorder_def leaf_def)
  from replaced_tree_reachable a b c show ?thesis by simp
qed

text \<open>C9 (as amended). Inserting 5, 3, 8, 1, 4, 7, 9 in that order into an empty tree gives
  the perfect tree of seven nodes; on it \<open>find(4)\<close> returns 4 and \<open>height()\<close> returns 2
  (height being -1 for the empty tree and one more than the larger child height otherwise).\<close>

theorem scenario_find_height:
  "LinkedBST_init [5, 3, 8, 1, 4, 7, 9] = Inr scenario_tree
   \<and> find_bst scenario_tree 4 = Some 4 \<and> height scenario_tree = 2"
  by (simp add: LinkedBST_init_def empty_bst_def add_def isEmpty_def scenario_tree_def
      leaf_def find_bst_def height_def)

text \<open>C9 as the spec states it fails: the height of that tree is not 3.\<close>

theorem scenario_height_not_3:
  "LinkedBST_init [5, 3, 8, 1, 4, 7, 9] = Inr scenario_tree \<and> height scenario_tree \<noteq> 3"
  by (simp add: LinkedBST_init_def empty_bst_def add_def isEmpty_def scenario_tree_def
      leaf_def height_def)

text \<open>C10. On a tree whose root is absent, \<open>successor\<close> and \<open>predecessor\<close> fail for every
  argument with the error of reading \<open>data\<close> of \<open>None\<close>; neither returns a "not found"
  result.\<close>

theorem successor_predecessor_empty:
  "successor (t\<lparr>bst_root := Empty\<rparr>) item = Inl AttributeError
   \<and> predecessor (t\<lparr>bst_root := Empty\<rparr>) item = Inl AttributeError
   \<and> successor empty_bst item = Inl AttributeError
   \<and> predecessor empty_bst item = Inl AttributeError"
  by (simp add: successor_def predecessor_def empty_bst_def)

end
